theory Spec2Isabelle
  imports
    Main
    "HOL-Library.AList"
    "HOL-Library.Char_ord"
    "HOL-Library.List_Lexorder"
    "HOL-Library.Product_Lexorder"
    "HOL-Library.While_Combinator"
begin

chapter \<open>legs: a lexer generator and its table-driven runtime\<close>

text \<open>
  The development follows the Python sources: \<^verbatim>\<open>legs_base.py\<close> (the lexer runtime),
  \<^verbatim>\<open>legs/nfa.py\<close> (NFA simulation and subset construction) and \<^verbatim>\<open>legs/dfa.py\<close>
  (DFA simulation and minimization). Nodes are natural numbers, symbols are integers
  (a byte is an integer in \<open>[0, 255]\<close>, the empty symbol is \<open>-1\<close>), a source text is a
  \<^typ>\<open>string\<close> whose characters are bytes, read as integers by \<^const>\<open>of_char\<close>.
\<close>

section \<open>The lexer runtime (\<^verbatim>\<open>legs_base.py\<close>)\<close>

subsection \<open>Data\<close>

text \<open>\<^verbatim>\<open>class Token(NamedTuple): kind:str; pos:int; end:int\<close>\<close>

record Token =
  kind :: string
  pos :: nat
  end_pos :: nat

text \<open>
  \<^verbatim>\<open>StateTransitions = Dict[int,Dict[int,int]]\<close>, \<^verbatim>\<open>MatchStateKinds = Dict[int,str]\<close>,
  \<^verbatim>\<open>ModeData = Tuple[int,StateTransitions,MatchStateKinds]\<close>.
\<close>

type_synonym StateTransitions = "nat \<rightharpoonup> (int \<rightharpoonup> nat)"
type_synonym MatchStateKinds = "nat \<rightharpoonup> string"
type_synonym ModeData = "nat \<times> StateTransitions \<times> MatchStateKinds"

text \<open>
  \<^verbatim>\<open>KindModeTransitions = Dict[str,Tuple[str,str]]\<close>,
  \<^verbatim>\<open>ModeTransitions = Dict[str,KindModeTransitions]\<close>.
\<close>

type_synonym KindModeTransitions = "string \<rightharpoonup> (string \<times> string)"
type_synonym ModeTransitions = "string \<rightharpoonup> KindModeTransitions"

text \<open>The class attributes of a generated \<^verbatim>\<open>DictLexerBase\<close> subclass.\<close>

record LexerTables =
  mode_data :: "string \<rightharpoonup> ModeData"
  mode_transitions :: ModeTransitions

text \<open>
  The mutable part of a lexer object: \<^verbatim>\<open>self.pos\<close> and \<^verbatim>\<open>self.stack\<close>, a list of
  \<^verbatim>\<open>(mode, pop_kind)\<close> frames whose top is the last element.
\<close>

record LexerState =
  lpos :: nat
  stack :: "(string \<times> string option) list"

datatype lex_error = StopIteration | AssertionError | IndexError

text \<open>\<^verbatim>\<open>DictLexerBase.__init__\<close>: position 0, stack \<^verbatim>\<open>[('main', None)]\<close>.\<close>

definition init_state :: LexerState where
  "init_state = \<lparr>lpos = 0, stack = [(''main'', None)]\<rparr>"

subsection \<open>The scanning loop\<close>

text \<open>\<^verbatim>\<open>transitions[state][byte]\<close>: a \<^verbatim>\<open>KeyError\<close> of either lookup is \<open>None\<close>.\<close>

definition step_state :: "StateTransitions \<Rightarrow> nat \<Rightarrow> int \<Rightarrow> nat option" where
  "step_state transitions state byte =
     (case transitions state of None \<Rightarrow> None | Some d \<Rightarrow> d byte)"

text \<open>
  The loop \<^verbatim>\<open>while pos < len_text\<close> of \<^verbatim>\<open>__next__\<close>, on the loop variables
  \<^verbatim>\<open>state\<close>, \<^verbatim>\<open>pos\<close>, \<^verbatim>\<open>end\<close> and \<^verbatim>\<open>kind\<close>; the result is their value when the loop
  is left, by \<^verbatim>\<open>break\<close> or at the end of the text.
\<close>

function scan ::
  "StateTransitions \<Rightarrow> MatchStateKinds \<Rightarrow> string \<Rightarrow> nat \<Rightarrow> nat \<Rightarrow> nat option \<Rightarrow> string
     \<Rightarrow> nat \<times> nat option \<times> string"
where
  "scan transitions match_node_kinds text state p e k =
     (if p < length text then
        (case step_state transitions state (of_char (text ! p)) of
           None \<Rightarrow> (p, e, k)
         | Some state' \<Rightarrow>
             (case match_node_kinds state' of
                None \<Rightarrow> scan transitions match_node_kinds text state' (p + 1) e k
              | Some k' \<Rightarrow> scan transitions match_node_kinds text state' (p + 1) (Some (p + 1)) k'))
      else (p, e, k))"
  by pat_completeness auto
termination
  by (relation "measure (\<lambda>(transitions, match_node_kinds, text, state, p, e, k). length text - p)")
     auto

declare scan.simps [simp del]

subsection \<open>One token: \<^verbatim>\<open>DictLexerBase.__next__\<close>\<close>

text \<open>
  The mode-stack update at the end of \<^verbatim>\<open>__next__\<close>:
  \<^verbatim>\<open>if kind == pop_kind: self.stack.pop()\<close>, else the frame
  \<^verbatim>\<open>self.mode_transitions[mode][kind]\<close> is appended when both lookups succeed.
\<close>

definition update_stack ::
  "ModeTransitions \<Rightarrow> string \<Rightarrow> string option \<Rightarrow> string
     \<Rightarrow> (string \<times> string option) list \<Rightarrow> (string \<times> string option) list"
where
  "update_stack mt mode pop_kind k stk =
     (if Some k = pop_kind then butlast stk
      else (case mt mode of
              None \<Rightarrow> stk
            | Some kmt \<Rightarrow>
                (case kmt k of
                   None \<Rightarrow> stk
                 | Some (child_mode, child_pop) \<Rightarrow> stk @ [(child_mode, Some child_pop)])))"

definition next_token ::
  "LexerTables \<Rightarrow> string \<Rightarrow> LexerState \<Rightarrow> lex_error + (Token \<times> LexerState)"
where
  "next_token L text st =
     (if lpos st = length text then Inl StopIteration
      else if stack st = [] then Inl IndexError
      else
        (let (mode, pop_kind) = last (stack st) in
         case mode_data L mode of
           None \<Rightarrow> Inl AssertionError
         | Some (mode_start, transitions, match_node_kinds) \<Rightarrow>
             (let (p, e, k) = scan transitions match_node_kinds text mode_start (lpos st) None ''incomplete'';
                  token_pos = lpos st;
                  e' = (case e of None \<Rightarrow> p | Some x \<Rightarrow> x)
              in if \<not> token_pos < e' then Inl AssertionError
                 else Inr (\<lparr>kind = k, pos = token_pos, end_pos = e'\<rparr>,
                           \<lparr>lpos = e',
                            stack = update_stack (mode_transitions L) mode pop_kind k (stack st)\<rparr>))))"

subsection \<open>Iterating the lexer\<close>

text \<open>
  \<^verbatim>\<open>for token in lexer\<close>: call \<^verbatim>\<open>__next__\<close> until it raises \<^verbatim>\<open>StopIteration\<close>. Any other
  exception ends the iteration with that error.
\<close>

function tokens :: "LexerTables \<Rightarrow> string \<Rightarrow> LexerState \<Rightarrow> lex_error + Token list" where
  "tokens L text st =
     (case next_token L text st of
        Inl StopIteration \<Rightarrow> Inr []
      | Inl err \<Rightarrow> Inl err
      | Inr (tok, st') \<Rightarrow>
          (case tokens L text st' of Inl err \<Rightarrow> Inl err | Inr toks \<Rightarrow> Inr (tok # toks)))"
  by pat_completeness auto

lemma next_token_progress:
  assumes "next_token L text st = Inr (tok, st')"
  shows "lpos st < lpos st' \<and> lpos st < length text"
proof -
  from assms have ne: "lpos st \<noteq> length text"
    by (auto simp: next_token_def split: if_splits)
  have "lpos st < lpos st'"
    using assms
    by (auto simp: next_token_def Let_def split: if_splits option.splits prod.splits)
  moreover have "lpos st < length text"
  proof (rule ccontr)
    assume "\<not> lpos st < length text"
    then have gt: "\<not> lpos st < length text" by simp
    have "\<And>tr mk s e k. scan tr mk text s (lpos st) e k = (lpos st, e, k)"
      using gt by (subst scan.simps) simp
    then show False using assms
      by (auto simp: next_token_def Let_def split: if_splits option.splits prod.splits)
  qed
  ultimately show ?thesis by simp
qed

termination tokens
proof (relation "measure (\<lambda>(L, text, st). length text - lpos st)")
  show "wf (measure (\<lambda>(L, text, st). length text - lpos st))" by simp
next
  fix L t st x2 tok st'
  assume "next_token L t st = Inr x2" "(tok, st') = x2"
  then have "next_token L t st = Inr (tok, st')" by simp
  from next_token_progress[OF this]
  show "((L, t, st'), (L, t, st)) \<in> measure (\<lambda>(L, text, st). length text - lpos st)"
    by auto
qed

declare tokens.simps [simp del]

subsection \<open>Well-formed tables, slices and token chains\<close>

definition slice :: "'a list \<Rightarrow> nat \<Rightarrow> nat \<Rightarrow> 'a list" where
  "slice xs i j = take (j - i) (drop i xs)"

definition lexer_modes :: "LexerTables \<Rightarrow> string set" where
  "lexer_modes L =
     insert ''main''
       {m'. \<exists>m kmt k pk. mode_transitions L m = Some kmt \<and> kmt k = Some (m', pk)}"

definition sink_complete :: "LexerTables \<Rightarrow> bool" where
  "sink_complete L =
     (\<forall>m \<in> lexer_modes L.
        \<exists>mode_start transitions match_node_kinds.
          mode_data L m = Some (mode_start, transitions, match_node_kinds) \<and>
          (\<forall>b. 0 \<le> b \<and> b < 256 \<longrightarrow> step_state transitions mode_start b \<noteq> None))"

fun chained :: "nat \<Rightarrow> Token list \<Rightarrow> nat \<Rightarrow> bool" where
  "chained p [] n = (p = n)"
| "chained p (t # ts) n = (pos t = p \<and> pos t < end_pos t \<and> chained (end_pos t) ts n)"

definition stack_ok :: "LexerTables \<Rightarrow> (string \<times> string option) list \<Rightarrow> bool" where
  "stack_ok L stk =
     (\<exists>rest. stk = (''main'', None) # rest \<and>
        (\<forall>(m, pk) \<in> set rest. pk \<noteq> None \<and> m \<in> lexer_modes L))"


text \<open>
  The name of the incomplete token of a mode, as \<^verbatim>\<open>combine_dfas\<close> of \<^verbatim>\<open>legs/__main__.py\<close>
  derives it: \<^verbatim>\<open>'incomplete' if (mode_name == 'main') else mode_name + '_incomplete'\<close>.
\<close>

definition incomplete_name :: "string \<Rightarrow> string" where
  "incomplete_name mode_name = (if mode_name = ''main'' then ''incomplete'' else mode_name @ ''_incomplete'')"

definition ex_main_data :: ModeData where
  "ex_main_data =
     (0,
      [0 \<mapsto> (\<lambda>b. if b = 40 then Some 2 else if 0 \<le> b \<and> b < 256 then Some 1 else None),
       1 \<mapsto> (\<lambda>b. if b \<noteq> 40 \<and> 0 \<le> b \<and> b < 256 then Some 1 else None),
       2 \<mapsto> Map.empty],
      [1 \<mapsto> ''invalid'', 2 \<mapsto> ''open''])"

definition ex_paren_data :: ModeData where
  "ex_paren_data =
     (0,
      [0 \<mapsto> (\<lambda>b. if b = 41 then Some 2 else if b = 97 then Some 3
                     else if 0 \<le> b \<and> b < 256 then Some 1 else None),
       1 \<mapsto> (\<lambda>b. if b \<noteq> 41 \<and> b \<noteq> 97 \<and> 0 \<le> b \<and> b < 256 then Some 1 else None),
       2 \<mapsto> Map.empty,
       3 \<mapsto> [98 \<mapsto> 4],
       4 \<mapsto> Map.empty],
      [1 \<mapsto> ''paren_invalid'', 2 \<mapsto> ''close'', 4 \<mapsto> ''pair''])"

definition ex_tables :: LexerTables where
  "ex_tables =
     \<lparr>mode_data = [''main'' \<mapsto> ex_main_data, ''paren'' \<mapsto> ex_paren_data],
      mode_transitions =
        [''main'' \<mapsto> [''open'' \<mapsto> (''paren'', ''close'')],
         ''paren'' \<mapsto> [''close'' \<mapsto> (''paren'', ''close'')]]\<rparr>"


subsection \<open>Properties of the scanning loop\<close>

lemma scan_props:
  "scan tr mk src s p e k = (p', e', k') \<Longrightarrow>
     p \<le> p' \<and> (p \<le> length src \<longrightarrow> p' \<le> length src) \<and>
     (e' = e \<and> k' = k \<or> (\<exists>x. e' = Some x \<and> p < x \<and> x \<le> p'))"
proof (induction tr mk src s p e k rule: scan.induct)
  case (1 tr mk src s p e k)
  show ?case
  proof (cases "p < length src")
    case False
    with "1.prems" show ?thesis by (subst (asm) scan.simps) simp
  next
    case lt: True
    show ?thesis
    proof (cases "step_state tr s (of_char (src ! p))")
      case None
      with lt "1.prems" show ?thesis by (subst (asm) scan.simps) simp
    next
      case (Some s')
      show ?thesis
      proof (cases "mk s'")
        case None
        with lt Some "1.prems"
        have "scan tr mk src s' (p + 1) e k = (p', e', k')"
          by (subst (asm) scan.simps) simp
        from "1.IH"(1)[OF lt Some None this] lt show ?thesis by auto
      next
        case (Some k2)
        with lt \<open>step_state tr s (of_char (src ! p)) = Some s'\<close> "1.prems"
        have "scan tr mk src s' (p + 1) (Some (p + 1)) k2 = (p', e', k')"
          by (subst (asm) scan.simps) simp
        from "1.IH"(2)[OF lt \<open>step_state tr s (of_char (src ! p)) = Some s'\<close> Some this] lt
        show ?thesis by auto
      qed
    qed
  qed
qed

lemma scan_advances:
  assumes "p < length src" "step_state tr s (of_char (src ! p)) \<noteq> None"
      and "scan tr mk src s p e k = (p', e', k')"
  shows "p < p'"
proof -
  from assms(2) obtain s' where s': "step_state tr s (of_char (src ! p)) = Some s'" by auto
  show ?thesis
  proof (cases "mk s'")
    case None
    with assms s' have "scan tr mk src s' (p + 1) e k = (p', e', k')"
      by (subst (asm) scan.simps) simp
    from scan_props[OF this] show ?thesis by simp
  next
    case (Some k2)
    with assms s' have "scan tr mk src s' (p + 1) (Some (p + 1)) k2 = (p', e', k')"
      by (subst (asm) scan.simps) simp
    from scan_props[OF this] show ?thesis by simp
  qed
qed

lemma of_char_byte: "0 \<le> (of_char c :: int) \<and> (of_char c :: int) < 256"
proof -
  have eq: "(of_char c :: int) mod 256 = of_char c" by (rule of_char_mod_256)
  have "(of_char c :: int) mod 256 < 256" by (rule pos_mod_bound) simp
  moreover have "0 \<le> (of_char c :: int) mod 256" by (rule pos_mod_sign) simp
  ultimately show ?thesis unfolding eq by simp
qed

lemma update_stack_ok:
  assumes "stack_ok L stk" "last stk = (mode, pop_kind)"
  shows "stack_ok L (update_stack (mode_transitions L) mode pop_kind k stk)"
proof -
  from assms(1) obtain rest where stk: "stk = (''main'', None) # rest"
    and rest: "\<forall>(m, pk) \<in> set rest. pk \<noteq> None \<and> m \<in> lexer_modes L"
    by (auto simp: stack_ok_def)
  show ?thesis
  proof (cases "Some k = pop_kind")
    case True
    with assms(2) stk have "rest \<noteq> []" by auto
    then have "butlast stk = (''main'', None) # butlast rest" using stk by simp
    moreover have "\<forall>(m, pk) \<in> set (butlast rest). pk \<noteq> None \<and> m \<in> lexer_modes L"
      using rest by (auto dest: in_set_butlastD)
    ultimately show ?thesis using True by (auto simp: stack_ok_def update_stack_def)
  next
    case False
    show ?thesis
    proof (cases "mode_transitions L mode")
      case None
      with False assms(1) show ?thesis by (simp add: update_stack_def)
    next
      case (Some kmt)
      show ?thesis
      proof (cases "kmt k")
        case None
        with False Some assms(1) show ?thesis by (simp add: update_stack_def)
      next
        case (Some frame)
        obtain m' pk' where frame: "frame = (m', pk')" by (cases frame)
        have "m' \<in> lexer_modes L"
          using \<open>mode_transitions L mode = Some kmt\<close> Some frame
          by (auto simp: lexer_modes_def)
        with False \<open>mode_transitions L mode = Some kmt\<close> Some frame stk rest
        show ?thesis by (auto simp: stack_ok_def update_stack_def)
      qed
    qed
  qed
qed

lemma stack_ok_last:
  assumes "stack_ok L stk"
  shows "stk \<noteq> [] \<and> fst (last stk) \<in> lexer_modes L"
proof -
  from assms obtain rest where stk: "stk = (''main'', None) # rest"
    and rest: "\<forall>(m, pk) \<in> set rest. pk \<noteq> None \<and> m \<in> lexer_modes L"
    by (auto simp: stack_ok_def)
  have main: "''main'' \<in> lexer_modes L" by (simp add: lexer_modes_def)
  show ?thesis
  proof (cases "rest = []")
    case True
    with stk main show ?thesis by simp
  next
    case False
    then have "last rest \<in> set rest" by simp
    with rest have "fst (last rest) \<in> lexer_modes L" by (cases "last rest") auto
    with stk False show ?thesis by simp
  qed
qed

lemma next_token_total:
  assumes sc: "sink_complete L" and ok: "stack_ok L (stack st)" and lt: "lpos st < length src"
  shows "\<exists>tok st'. next_token L src st = Inr (tok, st') \<and> pos tok = lpos st \<and>
           pos tok < end_pos tok \<and> end_pos tok \<le> length src \<and> lpos st' = end_pos tok \<and>
           stack_ok L (stack st')"
proof -
  obtain mode pop_kind where top: "last (stack st) = (mode, pop_kind)" by (cases "last (stack st)")
  from stack_ok_last[OF ok] top have ne: "stack st \<noteq> []" and m: "mode \<in> lexer_modes L" by auto
  from sc m obtain mode_start transitions match_node_kinds where
    md: "mode_data L mode = Some (mode_start, transitions, match_node_kinds)" and
    tot: "\<forall>b. 0 \<le> b \<and> b < 256 \<longrightarrow> step_state transitions mode_start b \<noteq> None"
    unfolding sink_complete_def by blast
  obtain p e k where sc1:
    "scan transitions match_node_kinds src mode_start (lpos st) None ''incomplete'' = (p, e, k)"
    by (metis prod_cases3)
  from tot of_char_byte have "step_state transitions mode_start (of_char (src ! lpos st)) \<noteq> None"
    by blast
  from scan_advances[OF lt this sc1] have adv: "lpos st < p" .
  from scan_props[OF sc1] lt have pr: "p \<le> length src"
    "e = None \<or> (\<exists>x. e = Some x \<and> lpos st < x \<and> x \<le> p)" by auto
  define e' where "e' = (case e of None \<Rightarrow> p | Some x \<Rightarrow> x)"
  have e': "lpos st < e'" "e' \<le> length src"
    using adv pr by (auto simp: e'_def)
  have "next_token L src st =
          Inr (\<lparr>kind = k, pos = lpos st, end_pos = e'\<rparr>,
               \<lparr>lpos = e', stack = update_stack (mode_transitions L) mode pop_kind k (stack st)\<rparr>)"
    using lt ne top md sc1 e'(1) by (simp add: next_token_def e'_def Let_def)
  moreover have "stack_ok L (update_stack (mode_transitions L) mode pop_kind k (stack st))"
    by (rule update_stack_ok[OF ok top])
  ultimately show ?thesis using e' by simp
qed

lemma tokens_chained:
  "sink_complete L \<Longrightarrow> stack_ok L (stack st) \<Longrightarrow> lpos st \<le> length src \<Longrightarrow>
         \<exists>toks. tokens L src st = Inr toks \<and> chained (lpos st) toks (length src)"
proof (induction L src st rule: tokens.induct)
  case (1 L src st)
  show ?case
  proof (cases "lpos st = length src")
    case True
    then have "next_token L src st = Inl StopIteration" by (simp add: next_token_def)
    then have "tokens L src st = Inr []" by (subst tokens.simps) simp
    with True show ?thesis by simp
  next
    case False
    with "1.prems" have lt: "lpos st < length src" by simp
    from next_token_total[OF "1.prems"(1) "1.prems"(2) lt]
    obtain tok st' where nt: "next_token L src st = Inr (tok, st')"
      and tk: "pos tok = lpos st" "pos tok < end_pos tok" "end_pos tok \<le> length src"
              "lpos st' = end_pos tok" "stack_ok L (stack st')"
      by blast
    from "1.IH"[OF nt refl "1.prems"(1) tk(5)] tk
    obtain toks where ts: "tokens L src st' = Inr toks" "chained (lpos st') toks (length src)"
      by auto
    from nt ts(1) have "tokens L src st = Inr (tok # toks)" by (subst tokens.simps) simp
    with ts(2) tk show ?thesis by simp
  qed
qed

lemma chained_concat:
  "chained p toks (length src) \<Longrightarrow> p \<le> length src \<Longrightarrow>
   concat (map (\<lambda>t. slice src (pos t) (end_pos t)) toks) = drop p src"
proof (induction toks arbitrary: p)
  case Nil
  then show ?case by simp
next
  case (Cons t ts)
  then have c: "pos t = p" "pos t < end_pos t" "chained (end_pos t) ts (length src)" by auto
  have le: "\<And>q us. chained q us (length src) \<Longrightarrow> q \<le> length src"
  proof -
    fix q us show "chained q us (length src) \<Longrightarrow> q \<le> length src"
      by (induction us arbitrary: q) (auto, fastforce)
  qed
  from le[OF c(3)] have e: "end_pos t \<le> length src" .
  from Cons.IH[OF c(3) e]
  have "concat (map (\<lambda>t. slice src (pos t) (end_pos t)) ts) = drop (end_pos t) src" .
  moreover have "slice src p (end_pos t) @ drop (end_pos t) src = drop p src"
  proof -
    have "drop (end_pos t) src = drop (end_pos t - p) (drop p src)"
      using c by simp
    then show ?thesis unfolding slice_def by (metis append_take_drop_id)
  qed
  ultimately show ?case using c by simp
qed

lemma chained_indices:
  "chained p toks n \<Longrightarrow>
     (toks \<noteq> [] \<longrightarrow> pos (hd toks) = p) \<and>
     (\<forall>i. Suc i < length toks \<longrightarrow> pos (toks ! Suc i) = end_pos (toks ! i)) \<and>
     (\<forall>t \<in> set toks. pos t < end_pos t)"
proof (induction toks arbitrary: p)
  case Nil
  then show ?case by simp
next
  case (Cons t ts)
  then have c: "pos t = p" "pos t < end_pos t" "chained (end_pos t) ts n" by auto
  from Cons.IH[OF c(3)] have ih:
    "ts \<noteq> [] \<longrightarrow> pos (hd ts) = end_pos t"
    "\<forall>i. Suc i < length ts \<longrightarrow> pos (ts ! Suc i) = end_pos (ts ! i)"
    "\<forall>t \<in> set ts. pos t < end_pos t" by auto
  have "\<forall>i. Suc i < length (t # ts) \<longrightarrow> pos ((t # ts) ! Suc i) = end_pos ((t # ts) ! i)"
  proof (intro allI impI)
    fix i assume "Suc i < length (t # ts)"
    then show "pos ((t # ts) ! Suc i) = end_pos ((t # ts) ! i)"
      using ih(1,2) by (cases i) (auto simp: hd_conv_nth)
  qed
  with c ih(3) show ?case by simp
qed


lemma ex_modes: "lexer_modes ex_tables = {''main'', ''paren''}"
  by (auto simp: lexer_modes_def ex_tables_def split: if_splits)

lemma ex_sink_complete: "sink_complete ex_tables"
  unfolding sink_complete_def ex_modes
  by (simp add: ex_tables_def ex_main_data_def ex_paren_data_def step_state_def)

lemma ex_tokens:
  "tokens ex_tables ''(ab)c'' init_state =
     Inr [\<lparr>kind = ''open'', pos = 0, end_pos = 1\<rparr>, \<lparr>kind = ''pair'', pos = 1, end_pos = 3\<rparr>,
          \<lparr>kind = ''close'', pos = 3, end_pos = 4\<rparr>, \<lparr>kind = ''invalid'', pos = 4, end_pos = 5\<rparr>]"
  by (simp add: tokens.simps next_token_def scan.simps step_state_def update_stack_def
        ex_tables_def ex_main_data_def ex_paren_data_def init_state_def)

lemma ex_tokens2:
  "tokens ex_tables ''(a'' init_state =
     Inr [\<lparr>kind = ''open'', pos = 0, end_pos = 1\<rparr>, \<lparr>kind = ''incomplete'', pos = 1, end_pos = 2\<rparr>]"
  by (simp add: tokens.simps next_token_def scan.simps step_state_def update_stack_def
        ex_tables_def ex_main_data_def ex_paren_data_def init_state_def)

subsection \<open>The lexer's tokens partition the input\<close>

text \<open>
  Claim C1. For every source text, iterating the lexer from its initial state until
  \<^verbatim>\<open>StopIteration\<close> returns a list of tokens that partitions the text: the first token
  starts at 0, every later token starts where the one before it ends, every token has
  \<open>pos < end\<close>, and the slices \<^verbatim>\<open>text[token.pos:token.end]\<close> concatenate to the text.
  The hypothesis \<^const>\<open>sink_complete\<close> is the sink-completion invariant of the tables:
  every mode the lexer can enter (\<^verbatim>\<open>main\<close> and the target of every mode transition) has
  its mode data, and its start state has a transition on every byte.
\<close>

theorem lexer_partition:
  assumes "sink_complete L"
  shows "\<exists>toks. tokens L src init_state = Inr toks \<and>
           (toks \<noteq> [] \<longrightarrow> pos (hd toks) = 0) \<and>
           (\<forall>i. Suc i < length toks \<longrightarrow> pos (toks ! Suc i) = end_pos (toks ! i)) \<and>
           (\<forall>t \<in> set toks. pos t < end_pos t) \<and>
           concat (map (\<lambda>t. slice src (pos t) (end_pos t)) toks) = src"
proof -
  have ok: "stack_ok L (stack init_state)" by (simp add: stack_ok_def init_state_def)
  have p0: "lpos init_state = 0" by (simp add: init_state_def)
  from tokens_chained[OF assms ok, of src] p0
  obtain toks where t: "tokens L src init_state = Inr toks" "chained 0 toks (length src)"
    by auto
  from chained_concat[OF t(2)] have "concat (map (\<lambda>t. slice src (pos t) (end_pos t)) toks) = src"
    by simp
  with t(1) chained_indices[OF t(2)] show ?thesis by blast
qed

theorem lexer_partition_witness:
  "sink_complete ex_tables \<and>
   tokens ex_tables ''(ab)c'' init_state =
     Inr [\<lparr>kind = ''open'', pos = 0, end_pos = 1\<rparr>, \<lparr>kind = ''pair'', pos = 1, end_pos = 3\<rparr>,
          \<lparr>kind = ''close'', pos = 3, end_pos = 4\<rparr>, \<lparr>kind = ''invalid'', pos = 4, end_pos = 5\<rparr>] \<and>
   slice ''(ab)c'' 0 1 @ slice ''(ab)c'' 1 3 @ slice ''(ab)c'' 3 4 @ slice ''(ab)c'' 4 5 = ''(ab)c''"
  using lexer_partition[OF ex_sink_complete, of "''(ab)c''"] ex_sink_complete
  by (simp add: ex_tokens)

subsection \<open>The kind of an incomplete token\<close>

text \<open>
  Claim C7, as stated: when no match was recorded for the token lexed in mode \<open>m\<close>, its
  kind is the incomplete name of \<open>m\<close>, \<^verbatim>\<open>incomplete\<close> for \<^verbatim>\<open>main\<close> and
  \<^verbatim>\<open><mode>_incomplete\<close> otherwise. The runtime does not do this: with the text \<^verbatim>\<open>(a\<close> the
  lexer emits \<^verbatim>\<open>open\<close>, enters the mode \<^verbatim>\<open>paren\<close>, reads \<^verbatim>\<open>a\<close> without reaching a match
  node, and emits a token of kind \<^verbatim>\<open>incomplete\<close>, not \<^verbatim>\<open>paren_incomplete\<close>.
\<close>

theorem incomplete_kind_counterexample:
  "tokens ex_tables ''(a'' init_state =
     Inr [\<lparr>kind = ''open'', pos = 0, end_pos = 1\<rparr>, \<lparr>kind = ''incomplete'', pos = 1, end_pos = 2\<rparr>] \<and>
   next_token ex_tables ''(a'' \<lparr>lpos = 1, stack = [(''main'', None), (''paren'', Some ''close'')]\<rparr> =
     Inr (\<lparr>kind = ''incomplete'', pos = 1, end_pos = 2\<rparr>,
          \<lparr>lpos = 2, stack = [(''main'', None), (''paren'', Some ''close'')]\<rparr>) \<and>
   mode_data ex_tables ''paren'' = Some ex_paren_data \<and>
   fst (snd (scan (fst (snd ex_paren_data)) (snd (snd ex_paren_data)) ''(a'' (fst ex_paren_data) 1
               None ''incomplete'')) = None \<and>
   incomplete_name ''paren'' = ''paren_incomplete'' \<and>
   ''incomplete'' \<noteq> incomplete_name ''paren''"
proof -
  have "next_token ex_tables ''(a'' \<lparr>lpos = 1, stack = [(''main'', None), (''paren'', Some ''close'')]\<rparr> =
     Inr (\<lparr>kind = ''incomplete'', pos = 1, end_pos = 2\<rparr>,
          \<lparr>lpos = 2, stack = [(''main'', None), (''paren'', Some ''close'')]\<rparr>)"
    by (simp add: next_token_def scan.simps step_state_def update_stack_def
          ex_tables_def ex_paren_data_def)
  moreover have "mode_data ex_tables ''paren'' = Some ex_paren_data"
    by (simp add: ex_tables_def)
  moreover have "fst (snd (scan (fst (snd ex_paren_data)) (snd (snd ex_paren_data)) ''(a''
                   (fst ex_paren_data) 1 None ''incomplete'')) = None"
    by (simp add: scan.simps step_state_def ex_paren_data_def)
  moreover have "incomplete_name ''paren'' = ''paren_incomplete''"
    "''incomplete'' \<noteq> incomplete_name ''paren''"
    by (simp_all add: incomplete_name_def)
  ultimately show ?thesis using ex_tokens2 by blast
qed

text \<open>
  Claim C7, amended: when the scanning loop of \<^verbatim>\<open>__next__\<close> records no match for the
  token lexed in mode \<open>m\<close>, the emitted token's kind is \<^verbatim>\<open>incomplete\<close>, whatever the mode
  (this is the incomplete name of the mode only for \<^verbatim>\<open>main\<close>).
\<close>

theorem incomplete_kind:
  assumes "next_token L src st = Inr (tok, st')"
      and "last (stack st) = (mode, pop_kind)"
      and "mode_data L mode = Some (mode_start, transitions, match_node_kinds)"
      and "fst (snd (scan transitions match_node_kinds src mode_start (lpos st) None ''incomplete''))
             = None"
  shows "kind tok = ''incomplete''"
proof -
  obtain p e k where sc:
    "scan transitions match_node_kinds src mode_start (lpos st) None ''incomplete'' = (p, e, k)"
    by (metis prod_cases3)
  with assms(4) have e: "e = None" by simp
  from scan_props[OF sc] e have k: "k = ''incomplete''" by auto
  from assms(1) have "lpos st \<noteq> length src" "stack st \<noteq> []"
    by (auto simp: next_token_def split: if_splits)
  with assms(1,2,3) sc have "kind tok = k"
    by (auto simp: next_token_def Let_def split: if_splits)
  with k show ?thesis by simp
qed

theorem incomplete_kind_witness:
  "next_token ex_tables ''(a'' \<lparr>lpos = 1, stack = [(''main'', None), (''paren'', Some ''close'')]\<rparr> =
     Inr (\<lparr>kind = ''incomplete'', pos = 1, end_pos = 2\<rparr>,
          \<lparr>lpos = 2, stack = [(''main'', None), (''paren'', Some ''close'')]\<rparr>) \<and>
   kind \<lparr>kind = ''incomplete'', pos = 1, end_pos = 2\<rparr> = ''incomplete''"
proof -
  let ?st = "\<lparr>lpos = 1, stack = [(''main'', None), (''paren'', Some ''close'')]\<rparr>"
  let ?tok = "\<lparr>kind = ''incomplete'', pos = 1, end_pos = 2\<rparr>"
  let ?st' = "\<lparr>lpos = 2, stack = [(''main'', None), (''paren'', Some ''close'')]\<rparr>"
  have n: "next_token ex_tables ''(a'' ?st = Inr (?tok, ?st')"
    by (simp add: next_token_def scan.simps step_state_def update_stack_def
          ex_tables_def ex_paren_data_def)
  have l: "last (stack ?st) = (''paren'', Some ''close'')" by simp
  have m: "mode_data ex_tables ''paren'' =
             Some (fst ex_paren_data, fst (snd ex_paren_data), snd (snd ex_paren_data))"
    by (simp add: ex_tables_def)
  have s: "fst (snd (scan (fst (snd ex_paren_data)) (snd (snd ex_paren_data)) ''(a''
                   (fst ex_paren_data) (lpos ?st) None ''incomplete'')) = None"
    by (simp add: scan.simps step_state_def ex_paren_data_def)
  from incomplete_kind[OF n l m s] n show ?thesis by simp
qed

subsection \<open>The mode-stack update\<close>

text \<open>
  Claim C8. After a token of kind \<open>k\<close> is emitted while the top frame of the stack is
  \<open>(mode, pop_kind)\<close>: if \<open>k\<close> equals \<open>pop_kind\<close> the stack is popped, whether or not
  \<open>(mode, k)\<close> is in the mode-transitions table; only otherwise, if \<open>(mode, k)\<close> is in
  the table, the paired frame is pushed; otherwise the stack is unchanged. So pop takes
  precedence and at most one stack operation happens per token.
\<close>

theorem mode_stack_update:
  assumes "next_token L src st = Inr (tok, st')"
      and "last (stack st) = (mode, pop_kind)"
  shows "stack st' =
           (if Some (kind tok) = pop_kind then butlast (stack st)
            else case Option.bind (mode_transitions L mode) (\<lambda>kmt. kmt (kind tok)) of
                   None \<Rightarrow> stack st
                 | Some (child_mode, child_pop) \<Rightarrow> stack st @ [(child_mode, Some child_pop)])"
proof -
  from assms(1) have ne: "lpos st \<noteq> length src" "stack st \<noteq> []"
    by (auto simp: next_token_def split: if_splits)
  from assms ne have "stack st' = update_stack (mode_transitions L) mode pop_kind (kind tok) (stack st)"
    by (auto simp: next_token_def Let_def split: if_splits option.splits prod.splits)
  then show ?thesis
    by (auto simp: update_stack_def split: option.splits)
qed

theorem mode_stack_update_witness:
  "next_token ex_tables ''()'' \<lparr>lpos = 1, stack = [(''main'', None), (''paren'', Some ''close'')]\<rparr> =
     Inr (\<lparr>kind = ''close'', pos = 1, end_pos = 2\<rparr>, \<lparr>lpos = 2, stack = [(''main'', None)]\<rparr>) \<and>
   Option.bind (mode_transitions ex_tables ''paren'') (\<lambda>kmt. kmt ''close'') =
     Some (''paren'', ''close'') \<and>
   stack \<lparr>lpos = 2, stack = [(''main'', None)]\<rparr> =
     butlast [(''main'', None), (''paren'', Some ''close'')]"
proof -
  let ?st = "\<lparr>lpos = 1, stack = [(''main'', None), (''paren'', Some ''close'')]\<rparr>"
  let ?tok = "\<lparr>kind = ''close'', pos = 1, end_pos = 2\<rparr>"
  let ?st' = "\<lparr>lpos = 2, stack = [(''main'', None)]\<rparr>"
  have n: "next_token ex_tables ''()'' ?st = Inr (?tok, ?st')"
    by (simp add: next_token_def scan.simps step_state_def update_stack_def
          ex_tables_def ex_paren_data_def)
  have l: "last (stack ?st) = (''paren'', Some ''close'')" by simp
  have b: "Option.bind (mode_transitions ex_tables ''paren'') (\<lambda>kmt. kmt ''close'') =
             Some (''paren'', ''close'')"
    by (simp add: ex_tables_def)
  from mode_stack_update[OF n l] n b show ?thesis by simp
qed

section \<open>Nondeterministic automata (\<^verbatim>\<open>legs/nfa.py\<close>)\<close>

subsection \<open>Dictionaries and frozen sets\<close>

text \<open>
  A Python \<^verbatim>\<open>dict\<close> is an association list with distinct keys, in insertion order:
  a lookup is \<^const>\<open>map_of\<close>, \<^verbatim>\<open>d[k] = v\<close> is \<^const>\<open>AList.update\<close> (the value is replaced in
  place, a new key is appended), the keys are the first components.
\<close>

type_synonym ('k, 'v) dict = "('k \<times> 'v) list"

abbreviation keys :: "('k, 'v) dict \<Rightarrow> 'k set" where
  "keys d \<equiv> fst ` set d"

text \<open>
  A \<^verbatim>\<open>frozenset\<close> of nodes is the sorted list of its elements without duplicates, so that
  two frozen sets are equal exactly when the lists are; iterating it visits the nodes in
  ascending order.
\<close>

definition frozenset :: "nat list \<Rightarrow> nat list" where
  "frozenset xs = sort (remdups xs)"

text \<open>\<^verbatim>\<open>empty_symbol = -1 # not a legitimate byte value.\<close>\<close>

definition empty_symbol :: int where
  "empty_symbol = -1"

subsection \<open>The class \<^verbatim>\<open>NFA\<close>\<close>

text \<open>
  \<^verbatim>\<open>NfaTransitions = Dict[int, Dict[int, FrozenSet[int]]]\<close>; the fields of \<^verbatim>\<open>NFA.__init__\<close>.
  Of \<^verbatim>\<open>literalRules\<close> only membership is ever asked.
\<close>

record NFA =
  nfa_transitions :: "(nat, (int, nat list) dict) dict"
  nfa_matchNodeNames :: "(nat, string) dict"
  nfa_literalRules :: "string set"

text \<open>\<^verbatim>\<open>self.transitions[node][byte]\<close>; a \<^verbatim>\<open>KeyError\<close> of either lookup is \<open>None\<close>.\<close>

definition nfa_get :: "NFA \<Rightarrow> nat \<Rightarrow> int \<Rightarrow> nat list option" where
  "nfa_get nfa node byte =
     (case map_of (nfa_transitions nfa) node of None \<Rightarrow> None | Some d \<Rightarrow> map_of d byte)"

text \<open>Every node that is the destination of some transition (used for termination only).\<close>

definition all_dsts :: "NFA \<Rightarrow> nat set" where
  "all_dsts nfa = (\<Union>(n, d) \<in> set (nfa_transitions nfa). \<Union>(c, dsts) \<in> set d. set dsts)"

lemma nfa_get_dsts: "nfa_get nfa node byte = Some dsts \<Longrightarrow> set dsts \<subseteq> all_dsts nfa"
  by (fastforce simp: nfa_get_def all_dsts_def split: option.splits dest!: map_of_SomeD)

lemma finite_all_dsts: "finite (all_dsts nfa)"
  by (auto simp: all_dsts_def)

text \<open>
  \<^verbatim>\<open>remaining.update(novel)\<close> on a set kept as a duplicate-free list: the members stay,
  the new elements are appended.
\<close>

definition set_update :: "'a list \<Rightarrow> 'a list \<Rightarrow> 'a list" where
  "set_update xs ys = xs @ filter (\<lambda>y. y \<notin> set xs) (remdups ys)"

lemma set_set_update: "set (set_update xs ys) = set xs \<union> set ys"
  by (auto simp: set_update_def)

text \<open>
  The loop of \<^verbatim>\<open>NFA.advance_empties\<close> on the variables \<^verbatim>\<open>remaining\<close> and \<^verbatim>\<open>expanded\<close>:
  \<^verbatim>\<open>remaining.pop()\<close> takes the first node of the list (Python pops an arbitrary one; the
  set that is returned does not depend on the choice, see \<open>advance_empties_closure\<close>).
\<close>

function ae_loop :: "NFA \<Rightarrow> nat list \<Rightarrow> nat list \<Rightarrow> nat list" where
  "ae_loop nfa [] expanded = expanded"
| "ae_loop nfa (node # remaining) expanded =
     (let expanded' = List.insert node expanded in
      case nfa_get nfa node empty_symbol of
        None \<Rightarrow> ae_loop nfa remaining expanded'
      | Some dst_nodes \<Rightarrow>
          (let novel = filter (\<lambda>n. n \<notin> set expanded') dst_nodes
           in ae_loop nfa (set_update remaining novel) expanded'))"
  by pat_completeness auto
termination
proof (relation "inv_image (less_than <*lex*> less_than)
    (\<lambda>(nfa, remaining, expanded).
       (card ((all_dsts nfa \<union> set remaining) - set expanded),
        length (filter (\<lambda>n. n \<in> set expanded) remaining)))", goal_cases)
  case 1
  show ?case by auto
next
  case (2 nfa node remaining expanded x)
  show ?case
  proof (cases "node \<in> set expanded")
    case True
    then show ?thesis using 2 by (auto simp: List.insert_def)
  next
    case False
    have "(all_dsts nfa \<union> set remaining) - set (List.insert node expanded)
            \<subset> (all_dsts nfa \<union> set (node # remaining)) - set expanded"
      using False by auto
    moreover have "finite ((all_dsts nfa \<union> set (node # remaining)) - set expanded)"
      by (simp add: finite_all_dsts)
    ultimately have "card ((all_dsts nfa \<union> set remaining) - set (List.insert node expanded))
            < card ((all_dsts nfa \<union> set (node # remaining)) - set expanded)"
      by (rule psubset_card_mono[rotated])
    then show ?thesis using 2 by simp
  qed
next
  case (3 nfa node remaining expanded x x2 xa)
  then have sub: "set x2 \<subseteq> all_dsts nfa" using nfa_get_dsts by auto
  have fin: "finite ((all_dsts nfa \<union> set (node # remaining)) - set expanded)"
    by (simp add: finite_all_dsts)
  show ?case
  proof (cases "node \<in> set expanded")
    case True
    then have e: "List.insert node expanded = expanded" by (simp add: List.insert_def)
    have s: "(all_dsts nfa \<union> set (set_update remaining xa)) - set expanded
          \<subseteq> (all_dsts nfa \<union> set (node # remaining)) - set expanded"
      using 3 sub by (auto simp: set_set_update)
    have f: "filter (\<lambda>n. n \<in> set expanded) (set_update remaining xa)
             = filter (\<lambda>n. n \<in> set expanded) remaining"
      using 3 True by (auto simp: set_update_def e filter_empty_conv)
    from card_mono[OF fin s] f True e 3 show ?thesis
      by (auto simp: le_less)
  next
    case False
    have "(all_dsts nfa \<union> set (set_update remaining xa)) - set (List.insert node expanded)
            \<subset> (all_dsts nfa \<union> set (node # remaining)) - set expanded"
      using False 3 sub by (auto simp: set_set_update)
    from psubset_card_mono[OF fin this] 3 show ?thesis by simp
  qed
qed

text \<open>\<^verbatim>\<open>NFA.advance_empties\<close>: \<^verbatim>\<open>remaining = set(state)\<close>, \<^verbatim>\<open>expanded = set()\<close>, the loop, \<^verbatim>\<open>frozenset(expanded)\<close>.\<close>

definition advance_empties :: "NFA \<Rightarrow> nat list \<Rightarrow> nat list" where
  "advance_empties nfa state = frozenset (ae_loop nfa (remdups state) [])"

text \<open>\<^verbatim>\<open>NFA.advance\<close>: the union of \<^verbatim>\<open>transitions[node][byte]\<close> over the nodes of the state, then its closure.\<close>

definition advance :: "NFA \<Rightarrow> nat list \<Rightarrow> int \<Rightarrow> nat list" where
  "advance nfa state byte =
     advance_empties nfa (frozenset (concat (List.map_filter (\<lambda>node. nfa_get nfa node byte) state)))"


text \<open>
  \<^verbatim>\<open>filtermap_with_mapping(state, self.matchNodeNames)\<close>: the names of the nodes of a state
  that have one, each once.
\<close>

definition state_names :: "NFA \<Rightarrow> nat list \<Rightarrow> string list" where
  "state_names nfa nfa_state = remdups (List.map_filter (map_of (nfa_matchNodeNames nfa)) nfa_state)"


text \<open>
  \<^verbatim>\<open>NFA.validate\<close>: one message for each item of \<^verbatim>\<open>sorted(self.matchNodeNames.items())\<close> whose
  node is in \<^verbatim>\<open>advance_empties(frozenset({0}))\<close>, formatted by
  \<^verbatim>\<open>'error: rule is trivially matched from start: {}.'.format(name)\<close>.
\<close>

definition validate :: "NFA \<Rightarrow> string list" where
  "validate nfa =
     (let start = advance_empties nfa [0]
      in map (\<lambda>(node, name). ''error: rule is trivially matched from start: '' @ name @ ''.'')
           (filter (\<lambda>(node, name). node \<in> set start) (sort (nfa_matchNodeNames nfa))))"

text \<open>The \<open>\<epsilon>\<close>-edges of an NFA, as a relation; its reflexive transitive closure gives the \<open>\<epsilon>\<close>-closure.\<close>

definition eps_step :: "NFA \<Rightarrow> (nat \<times> nat) set" where
  "eps_step nfa = {(n, m). \<exists>dsts. nfa_get nfa n empty_symbol = Some dsts \<and> m \<in> set dsts}"

lemma set_frozenset: "set (frozenset xs) = set xs"
  by (simp add: frozenset_def)

lemma rtrancl_closed_Image:
  assumes "R `` A \<subseteq> A \<union> B"
  shows "R\<^sup>* `` A \<subseteq> A \<union> R\<^sup>* `` B"
proof
  fix y assume "y \<in> R\<^sup>* `` A"
  then obtain x where x: "x \<in> A" "(x, y) \<in> R\<^sup>*" by auto
  from x(2) x(1) show "y \<in> A \<union> R\<^sup>* `` B"
  proof (induction rule: converse_rtrancl_induct)
    case base
    then show ?case by simp
  next
    case (step x z)
    from step.hyps(1) step.prems assms have "z \<in> A \<union> B" by auto
    then show ?case
    proof
      assume "z \<in> A" then show ?thesis by (rule step.IH)
    next
      assume "z \<in> B" with step.hyps(2) show ?thesis by auto
    qed
  qed
qed

lemma ae_loop_closure:
  "eps_step nfa `` set expanded \<subseteq> set expanded \<union> set remaining \<Longrightarrow>
   set (ae_loop nfa remaining expanded) = set expanded \<union> (eps_step nfa)\<^sup>* `` set remaining"
proof (induction nfa remaining expanded rule: ae_loop.induct)
  case (1 nfa expanded)
  then show ?case by simp
next
  case (2 nfa node remaining expanded)
  let ?R = "eps_step nfa"
  let ?E = "List.insert node expanded"
  show ?case
  proof (cases "nfa_get nfa node empty_symbol")
    case None
    then have nd: "?R `` {node} = {}" by (auto simp: eps_step_def)
    have pre: "?R `` set ?E \<subseteq> set ?E \<union> set remaining"
      using "2.prems" nd by auto
    have "?R\<^sup>* `` {node} = {node}"
      using nd by (auto elim: converse_rtranclE)
    then have "?R\<^sup>* `` set (node # remaining) = insert node (?R\<^sup>* `` set remaining)"
      by auto
    with "2.IH"(1)[OF refl None pre] None show ?thesis by simp
  next
    case (Some dsts)
    let ?novel = "filter (\<lambda>n. n \<notin> set ?E) dsts"
    have nd: "?R `` {node} = set dsts" using Some by (auto simp: eps_step_def)
    have pre: "?R `` set ?E \<subseteq> set ?E \<union> set (set_update remaining ?novel)"
      using "2.prems" nd by (auto simp: set_set_update)
    from "2.IH"(2)[OF refl Some refl pre] Some
    have res: "set (ae_loop nfa (node # remaining) expanded) =
               set ?E \<union> ?R\<^sup>* `` set (set_update remaining ?novel)"
      by simp
    let ?U = "set (set_update remaining ?novel)"
    have U: "?U = set remaining \<union> set ?novel" by (simp add: set_set_update)
    have cl: "?R\<^sup>* `` set ?E \<subseteq> set ?E \<union> ?R\<^sup>* `` ?U"
      by (rule rtrancl_closed_Image[OF pre])
    have nodeI: "?R\<^sup>* `` {node} = insert node (?R\<^sup>* `` set dsts)"
      using nd by (auto elim: converse_rtranclE intro: converse_rtrancl_into_rtrancl)
    have rhs: "?R\<^sup>* `` set (node # remaining) =
                 insert node (?R\<^sup>* `` set dsts \<union> ?R\<^sup>* `` set remaining)"
    proof -
      have "set (node # remaining) = {node} \<union> set remaining" by simp
      then have "?R\<^sup>* `` set (node # remaining) = ?R\<^sup>* `` {node} \<union> ?R\<^sup>* `` set remaining"
        by (simp only: Image_Un)
      with nodeI show ?thesis by simp
    qed
    have sub1: "?R\<^sup>* `` ?U \<subseteq> ?R\<^sup>* `` set dsts \<union> ?R\<^sup>* `` set remaining"
    proof -
      have "?U \<subseteq> set dsts \<union> set remaining" using U by auto
      then have "?R\<^sup>* `` ?U \<subseteq> ?R\<^sup>* `` (set dsts \<union> set remaining)" by (rule Image_mono[OF subset_refl])
      then show ?thesis by (simp only: Image_Un)
    qed
    have sub2: "?R\<^sup>* `` set dsts \<subseteq> set ?E \<union> ?R\<^sup>* `` ?U"
    proof -
      have "set dsts \<subseteq> set ?E \<union> ?U" using U by auto
      then have "?R\<^sup>* `` set dsts \<subseteq> ?R\<^sup>* `` (set ?E \<union> ?U)" by (rule Image_mono[OF subset_refl])
      also have "\<dots> = ?R\<^sup>* `` set ?E \<union> ?R\<^sup>* `` ?U" by (simp only: Image_Un)
      also have "\<dots> \<subseteq> set ?E \<union> ?R\<^sup>* `` ?U" using cl by auto
      finally show ?thesis .
    qed
    have sub3: "?R\<^sup>* `` set remaining \<subseteq> ?R\<^sup>* `` ?U"
      by (rule Image_mono[OF subset_refl]) (simp add: set_set_update)
    have E: "set ?E = insert node (set expanded)" by simp
    have "set ?E \<union> ?R\<^sup>* `` ?U = set expanded \<union> ?R\<^sup>* `` set (node # remaining)"
      unfolding rhs E using sub1 sub2 sub3 unfolding E by blast
    with res show ?thesis by simp
  qed
qed

lemma advance_empties_closure:
  "set (advance_empties nfa state) = (eps_step nfa)\<^sup>* `` set state"
proof -
  have "set (ae_loop nfa (remdups state) []) = set [] \<union> (eps_step nfa)\<^sup>* `` set (remdups state)"
    by (rule ae_loop_closure) simp
  then show ?thesis by (simp add: advance_empties_def set_frozenset)
qed


definition ex_nfa_star :: NFA where
  "ex_nfa_star = \<lparr>nfa_transitions = [(0, [(-1, [3])]), (3, [(97, [3]), (-1, [2])])],
               nfa_matchNodeNames = [(1, ''invalid''), (2, ''r'')], nfa_literalRules = {}\<rparr>"

section \<open>Deterministic automata (\<^verbatim>\<open>legs/dfa.py\<close>)\<close>

text \<open>
  \<^verbatim>\<open>DfaTransitions = Dict[int, Dict[int, int]]\<close>; the fields of \<^verbatim>\<open>DFA.__init__\<close>.
\<close>

record DFA =
  dfa_transitions :: "(nat, (int, nat) dict) dict"
  dfa_matchNodeNames :: "(nat, string) dict"
  dfa_literalRules :: "string set"




section \<open>Subset construction: \<^verbatim>\<open>gen_dfa\<close> (\<^verbatim>\<open>legs/nfa.py\<close>)\<close>

text \<open>
  The ways the generator fails: a failed \<^verbatim>\<open>assert\<close>, two non-literal rules at one node of
  the fat DFA, a node with an empty set of names, and the \<^verbatim>\<open>exit\<close> of \<^verbatim>\<open>minimizeDFA\<close> on
  inconsistent transitions.
\<close>

datatype gen_error = GenAssertionError | Ambiguous string string | NoName | Inconsistent

text \<open>
  \<^verbatim>\<open>nfa_states_to_dfa_nodes = defaultdict(mk_node)\<close> with \<^verbatim>\<open>mk_node\<close> counting from 0: the
  dictionary is the list of its keys in insertion order, the node of a state is its index.
  A lookup of a state that is not there appends it.
\<close>

primrec index_of :: "'a \<Rightarrow> 'a list \<Rightarrow> nat option" where
  "index_of x [] = None"
| "index_of x (y # ys) = (if x = y then Some 0 else map_option Suc (index_of x ys))"

definition lookup_node :: "nat list list \<Rightarrow> nat list \<Rightarrow> nat list list \<times> nat" where
  "lookup_node states st =
     (case index_of st states of
        Some i \<Rightarrow> (states, i)
      | None \<Rightarrow> (states @ [st], length states))"

text \<open>
  \<^verbatim>\<open>transitions = defaultdict(dict)\<close>: reading \<^verbatim>\<open>transitions[node]\<close> creates the empty
  dictionary of a node that has none (\<open>touch\<close>), \<^verbatim>\<open>transitions[node][c] = dst\<close> is
  \<open>set_edge\<close>.
\<close>

definition touch :: "'k \<Rightarrow> ('k, ('c, 'v) dict) dict \<Rightarrow> ('k, ('c, 'v) dict) dict" where
  "touch node tr = (if node \<in> fst ` set tr then tr else tr @ [(node, [])])"

definition get_dict :: "('k, ('c, 'v) dict) dict \<Rightarrow> 'k \<Rightarrow> ('c, 'v) dict" where
  "get_dict tr node = (case map_of tr node of None \<Rightarrow> [] | Some d \<Rightarrow> d)"

definition set_edge :: "('k, ('c, 'v) dict) dict \<Rightarrow> 'k \<Rightarrow> 'c \<Rightarrow> 'v \<Rightarrow> ('k, ('c, 'v) dict) dict" where
  "set_edge tr node c dst = AList.update node (AList.update c dst (get_dict tr node)) tr"

text \<open>
  \<^verbatim>\<open>NFA.alphabet\<close>: the keys of all the inner dictionaries but the empty symbol. The loop
  \<^verbatim>\<open>for char in alphabet\<close> visits them in ascending order here (Python's order over a set
  is unspecified; it only decides how the nodes are numbered).
\<close>

definition nfa_alphabet :: "NFA \<Rightarrow> int list" where
  "nfa_alphabet nfa =
     sort (remdups (filter (\<lambda>c. c \<noteq> empty_symbol)
       (concat (map (\<lambda>(n, d). map fst d) (nfa_transitions nfa)))))"

text \<open>
  The variables of the loop \<^verbatim>\<open>while remaining\<close>: \<^verbatim>\<open>nfa_states_to_dfa_nodes\<close>,
  \<^verbatim>\<open>transitions\<close> and \<^verbatim>\<open>remaining\<close> (a set, kept as a duplicate-free list; \<^verbatim>\<open>pop\<close> takes its
  first element).
\<close>

type_synonym gen_state = "nat list list \<times> (nat, (int, nat) dict) dict \<times> nat list list"

text \<open>The body of \<^verbatim>\<open>for char in alphabet\<close>.\<close>

definition gen_char :: "NFA \<Rightarrow> nat list \<Rightarrow> nat \<Rightarrow> int \<Rightarrow> gen_state \<Rightarrow> gen_state" where
  "gen_char nfa state node char = (\<lambda>(states, tr, remaining).
     (let dst_state = advance nfa state char in
      if dst_state = [] then (states, tr, remaining)
      else
        (let (states', dst_node) = lookup_node states dst_state;
             tr' = set_edge tr node char dst_node
         in (states', tr',
             if dst_node \<in> fst ` set tr' then remaining else set_update remaining [dst_state]))))"

text \<open>The body of \<^verbatim>\<open>while remaining\<close>.\<close>

definition gen_step :: "NFA \<Rightarrow> gen_state \<Rightarrow> gen_state" where
  "gen_step nfa = (\<lambda>(states, tr, remaining).
     (let state = hd remaining;
          (states', node) = lookup_node states state
      in fold (gen_char nfa state node) (nfa_alphabet nfa) (states', touch node tr, tl remaining)))"

definition gen_loop :: "NFA \<Rightarrow> gen_state \<Rightarrow> gen_state option" where
  "gen_loop nfa = while_option (\<lambda>(states, tr, remaining). remaining \<noteq> []) (gen_step nfa)"

text \<open>
  The sink completion: \<^verbatim>\<open>invalid_start_chars = set(range(0x100)) - set(start_dict)\<close>, and
  for each of them \<^verbatim>\<open>start_dict[c] = invalid_node; invalid_dict[c] = invalid_node\<close>.
\<close>

definition sink_chars :: "(int, nat) dict \<Rightarrow> int list" where
  "sink_chars start_dict = filter (\<lambda>c. c \<notin> fst ` set start_dict) [0..255]"

definition complete_sink :: "nat \<Rightarrow> nat \<Rightarrow> (nat, (int, nat) dict) dict \<Rightarrow> (nat, (int, nat) dict) dict" where
  "complete_sink start_node invalid_node tr =
     (let tr1 = touch invalid_node (touch start_node tr)
      in fold (\<lambda>c t. set_edge (set_edge t start_node c invalid_node) invalid_node c invalid_node)
           (sink_chars (get_dict tr1 start_node)) tr1)"

text \<open>
  \<^verbatim>\<open>matchNodeNameSets\<close>: for every DFA node the names of the NFA nodes of its state; a node
  gets an entry only when there is a name.
\<close>

definition node_names :: "NFA \<Rightarrow> nat list list \<Rightarrow> (nat, string list) dict" where
  "node_names nfa states =
     filter (\<lambda>(node, names). names \<noteq> [])
       (map (\<lambda>(node, nfa_state). (node, state_names nfa nfa_state)) (enumerate 0 states))"

text \<open>
  Modelled from the spec: the constructor \<^verbatim>\<open>DFA(transitions, matchNodeNameSets, literalRules)\<close>
  that \<^verbatim>\<open>gen_dfa\<close> calls is missing from the sources (the \<^verbatim>\<open>DFA.__init__\<close> of
  \<^verbatim>\<open>legs/dfa.py\<close> takes \<^verbatim>\<open>matchNodeNames\<close>, one name per node). The spec, section 4.4 step 5:
  ``a DFA node accepting multiple rules becomes a single match with deterministic tie-break:
  literal rule > non-literal; among equals, the lexicographically smallest name wins.
  Ambiguity detection: if two non-literal rules tie at the same DFA node, emit a diagnostic
  naming both; this is a generation error surfaced to the caller.''
\<close>

definition coalesce :: "string set \<Rightarrow> string list \<Rightarrow> gen_error + string" where
  "coalesce literalRules names =
     (let literals = filter (\<lambda>n. n \<in> literalRules) names in
      if literals \<noteq> [] then Inr (hd (sort literals))
      else (case sort (remdups names) of
              [] \<Rightarrow> Inl NoName
            | [n] \<Rightarrow> Inr n
            | n1 # n2 # ns \<Rightarrow> Inl (Ambiguous n1 n2)))"

fun coalesce_all :: "string set \<Rightarrow> (nat, string list) dict \<Rightarrow> gen_error + (nat, string) dict" where
  "coalesce_all literalRules [] = Inr []"
| "coalesce_all literalRules ((node, names) # rest) =
     (case coalesce literalRules names of
        Inl err \<Rightarrow> Inl err
      | Inr name \<Rightarrow>
          (case coalesce_all literalRules rest of
             Inl err \<Rightarrow> Inl err
           | Inr named \<Rightarrow> Inr ((node, name) # named)))"

text \<open>
  Modelled from the spec: the missing constructor, which coalesces the names of every node
  and stores the transitions and the literal rules as they are.
\<close>

definition DFA_init ::
  "(nat, (int, nat) dict) dict \<Rightarrow> (nat, string list) dict \<Rightarrow> string set \<Rightarrow> gen_error + DFA" where
  "DFA_init transitions matchNodeNameSets literalRules =
     (case coalesce_all literalRules matchNodeNameSets of
        Inl err \<Rightarrow> Inl err
      | Inr named \<Rightarrow>
          Inr \<lparr>dfa_transitions = transitions, dfa_matchNodeNames = named,
               dfa_literalRules = literalRules\<rparr>)"

text \<open>
  \<^verbatim>\<open>gen_dfa\<close>. The result is \<open>None\<close> when the loop does not end, \<open>Some (Inl e)\<close> when the
  generator fails (\<^verbatim>\<open>assert invalid_node not in transitions\<close>, or an ambiguity), and
  \<open>Some (Inr dfa)\<close> when it returns the fat DFA.
\<close>

definition gen_dfa :: "NFA \<Rightarrow> (gen_error + DFA) option" where
  "gen_dfa nfa =
     (let start = advance_empties nfa [0];
          invalid = frozenset [1];
          (states0, start_node) = lookup_node [] start;
          (states1, invalid_node) = lookup_node states0 invalid
      in case gen_loop nfa (states1, [], [start]) of
           None \<Rightarrow> None
         | Some (states, tr, remaining) \<Rightarrow>
             Some (if invalid_node \<in> fst ` set tr then Inl GenAssertionError
                   else DFA_init (complete_sink start_node invalid_node tr)
                          (node_names nfa states) (nfa_literalRules nfa)))"

section \<open>Properties of the subset construction\<close>

subsection \<open>Dictionary operations\<close>

definition tr_get :: "('k, ('c, 'v) dict) dict \<Rightarrow> 'k \<Rightarrow> 'c \<Rightarrow> 'v option" where
  "tr_get tr node c = (case map_of tr node of None \<Rightarrow> None | Some d \<Rightarrow> map_of d c)"

lemma keys_touch: "keys (touch node tr) = insert node (keys tr)"
  by (auto simp: touch_def)

lemma map_of_touch:
  "map_of (touch node tr) n = (if n = node \<and> node \<notin> keys tr then Some [] else map_of tr n)"
proof (cases "node \<in> keys tr")
  case True
  then show ?thesis by (simp add: touch_def)
next
  case False
  then have nn: "map_of tr node = None" by (simp add: map_of_eq_None_iff)
  show ?thesis
  proof (cases "n = node")
    case True
    with False nn show ?thesis by (simp add: touch_def map_add_def)
  next
    case False
    with \<open>node \<notin> keys tr\<close> show ?thesis
      by (simp add: touch_def map_add_def split: option.splits)
  qed
qed

lemma tr_get_touch: "tr_get (touch node tr) n c = tr_get tr n c"
proof (cases "n = node \<and> node \<notin> keys tr")
  case True
  then have "map_of tr n = None" by (simp add: map_of_eq_None_iff)
  with True show ?thesis by (simp add: tr_get_def map_of_touch)
next
  case False
  then show ?thesis by (auto simp: tr_get_def map_of_touch)
qed

lemma keys_set_edge: "keys (set_edge tr node c dst) = insert node (keys tr)"
  by (auto simp: set_edge_def dom_update)

lemma tr_get_set_edge:
  "tr_get (set_edge tr node c dst) n c' =
     (if n = node \<and> c' = c then Some dst else tr_get tr n c')"
  by (auto simp: tr_get_def set_edge_def update_conv' get_dict_def split: option.splits)

lemma index_of_Some: "index_of x xs = Some i \<Longrightarrow> i < length xs \<and> xs ! i = x"
  by (induction xs arbitrary: i) (auto split: if_splits)

lemma index_of_None: "index_of x xs = None \<longleftrightarrow> x \<notin> set xs"
  by (induction xs) auto

lemma lookup_node_props:
  assumes "lookup_node states st = (states', node)"
  shows "node < length states' \<and> states' ! node = st \<and>
         (\<exists>ys. states' = states @ ys) \<and> set states' = insert st (set states) \<and>
         (distinct states \<longrightarrow> distinct states')"
proof (cases "index_of st states")
  case None
  then have "st \<notin> set states" by (simp add: index_of_None)
  with assms None show ?thesis by (auto simp: lookup_node_def)
next
  case (Some i)
  from index_of_Some[OF Some] assms Some show ?thesis
    by (auto simp: lookup_node_def)
qed

subsection \<open>The invariant of the loop of \<^verbatim>\<open>gen_dfa\<close>\<close>

definition edges_ok :: "NFA \<Rightarrow> gen_state \<Rightarrow> bool" where
  "edges_ok nfa = (\<lambda>(states, tr, remaining).
     \<forall>n c m. tr_get tr n c = Some m \<longrightarrow>
       n < length states \<and> m < length states \<and> c \<in> set (nfa_alphabet nfa) \<and>
       states ! m \<noteq> [] \<and> states ! m = advance nfa (states ! n) c \<and>
       (m \<in> keys tr \<or> states ! m \<in> set remaining))"

definition base_ok :: "NFA \<Rightarrow> gen_state \<Rightarrow> bool" where
  "base_ok nfa = (\<lambda>(states, tr, remaining).
     distinct states \<and> 2 \<le> length states \<and> states ! 0 = advance_empties nfa [0] \<and>
     states ! 1 = frozenset [1] \<and> keys tr \<subseteq> {..<length states} \<and>
     set remaining \<subseteq> set states \<and>
     (0 \<in> keys tr \<or> advance_empties nfa [0] \<in> set remaining))"

definition complete_at :: "NFA \<Rightarrow> nat list list \<Rightarrow> (nat, (int, nat) dict) dict \<Rightarrow> nat \<Rightarrow> int set \<Rightarrow> bool" where
  "complete_at nfa states tr n C =
     (\<forall>c \<in> C. advance nfa (states ! n) c \<noteq> [] \<longrightarrow> tr_get tr n c \<noteq> None)"

definition gen_inv :: "NFA \<Rightarrow> gen_state \<Rightarrow> bool" where
  "gen_inv nfa st = (base_ok nfa st \<and> edges_ok nfa st \<and>
     (case st of (states, tr, remaining) \<Rightarrow>
        \<forall>n \<in> keys tr. complete_at nfa states tr n (set (nfa_alphabet nfa))))"

definition gen_inner :: "NFA \<Rightarrow> nat list \<Rightarrow> nat \<Rightarrow> int set \<Rightarrow> gen_state \<Rightarrow> bool" where
  "gen_inner nfa state node D st = (base_ok nfa st \<and> edges_ok nfa st \<and>
     (case st of (states, tr, remaining) \<Rightarrow>
        node \<in> keys tr \<and> node < length states \<and> states ! node = state \<and>
        (\<forall>n \<in> keys tr - {node}. complete_at nfa states tr n (set (nfa_alphabet nfa))) \<and>
        complete_at nfa states tr node D))"

lemma edges_okD:
  assumes "edges_ok nfa (states, tr, remaining)" and "tr_get tr n c = Some m"
  shows "n < length states \<and> m < length states \<and> c \<in> set (nfa_alphabet nfa) \<and>
         states ! m \<noteq> [] \<and> states ! m = advance nfa (states ! n) c \<and>
         (m \<in> keys tr \<or> states ! m \<in> set remaining)"
proof -
  from assms(1) have "\<forall>n c m. tr_get tr n c = Some m \<longrightarrow>
       n < length states \<and> m < length states \<and> c \<in> set (nfa_alphabet nfa) \<and>
       states ! m \<noteq> [] \<and> states ! m = advance nfa (states ! n) c \<and>
       (m \<in> keys tr \<or> states ! m \<in> set remaining)"
    unfolding edges_ok_def prod.case .
  with assms(2) show ?thesis by blast
qed

lemma gen_char_inner:
  assumes inv: "gen_inner nfa state node D st" and ch: "char \<in> set (nfa_alphabet nfa)"
  shows "gen_inner nfa state node (insert char D) (gen_char nfa state node char st)"
proof -
  obtain states tr remaining where st: "st = (states, tr, remaining)" by (cases st)
  from inv st have base: "base_ok nfa (states, tr, remaining)"
    and edges: "edges_ok nfa (states, tr, remaining)"
    and node: "node \<in> keys tr" "node < length states" "states ! node = state"
    and others: "\<forall>n \<in> keys tr - {node}. complete_at nfa states tr n (set (nfa_alphabet nfa))"
    and mine: "complete_at nfa states tr node D"
    by (auto simp: gen_inner_def)
  let ?dst = "advance nfa state char"
  show ?thesis
  proof (cases "?dst = []")
    case True
    then have "gen_char nfa state node char st = st" by (simp add: gen_char_def st)
    moreover have "complete_at nfa states tr node (insert char D)"
      using mine True node(3) by (auto simp: complete_at_def)
    ultimately show ?thesis using inv st by (auto simp: gen_inner_def)
  next
    case False
    obtain states' dst_node where ln: "lookup_node states ?dst = (states', dst_node)"
      by (cases "lookup_node states ?dst")
    from lookup_node_props[OF ln] obtain ys where
      dn: "dst_node < length states'" "states' ! dst_node = ?dst" and
      app: "states' = states @ ys" and sset: "set states' = insert ?dst (set states)" and
      dist: "distinct states \<longrightarrow> distinct states'" by blast
    let ?tr = "set_edge tr node char dst_node"
    let ?rem = "if dst_node \<in> keys ?tr then remaining else set_update remaining [?dst]"
    have res: "gen_char nfa state node char st = (states', ?tr, ?rem)"
      using False ln by (simp add: gen_char_def st Let_def)
    have old: "\<And>i. i < length states \<Longrightarrow> states' ! i = states ! i"
      by (simp add: app nth_append)
    have len: "length states \<le> length states'" by (simp add: app)
    have ktr: "keys ?tr = keys tr" using node(1) by (auto simp: keys_set_edge)
    have remsub: "set remaining \<subseteq> set ?rem" by (auto simp: set_set_update)
    have l2: "2 \<le> length states" using base by (simp add: base_ok_def)
    have s01: "states' ! 0 = states ! 0" "states' ! 1 = states ! 1"
    proof -
      from l2 have "0 < length states" "1 < length states" by auto
      then show "states' ! 0 = states ! 0" "states' ! 1 = states ! 1"
        using old by blast+
    qed
    have remsup: "set ?rem \<subseteq> set states'"
      using base sset by (auto simp: base_ok_def set_set_update)
    have start': "0 \<in> keys ?tr \<or> advance_empties nfa [0] \<in> set ?rem"
      using base ktr remsub by (auto simp: base_ok_def)
    have ksub: "keys ?tr \<subseteq> {..<length states'}"
      using base ktr len by (auto simp: base_ok_def)
    have base': "base_ok nfa (states', ?tr, ?rem)"
      using base dist len s01 remsup start' ksub
      by (simp add: base_ok_def)
    have edges': "edges_ok nfa (states', ?tr, ?rem)"
      unfolding edges_ok_def
    proof (clarify)
      fix n c m assume g: "tr_get ?tr n c = Some m"
      show "n < length states' \<and> m < length states' \<and> c \<in> set (nfa_alphabet nfa) \<and>
            states' ! m \<noteq> [] \<and> states' ! m = advance nfa (states' ! n) c \<and>
            (m \<in> keys ?tr \<or> states' ! m \<in> set ?rem)"
      proof (cases "n = node \<and> c = char")
        case True
        with g have m: "m = dst_node" by (simp add: tr_get_set_edge)
        have "states' ! node = state" using old node by simp
        moreover have "dst_node \<in> keys ?tr \<or> states' ! dst_node \<in> set ?rem"
          using dn by (auto simp: set_set_update)
        ultimately show ?thesis using True m dn node len ch False by auto
      next
        case False
        with g have g': "tr_get tr n c = Some m" by (auto simp: tr_get_set_edge split: if_splits)
        from edges_okD[OF edges g'] have e: "n < length states" "m < length states"
          "c \<in> set (nfa_alphabet nfa)" "states ! m \<noteq> []"
          "states ! m = advance nfa (states ! n) c"
          "m \<in> keys tr \<or> states ! m \<in> set remaining"
          by blast+
        then show ?thesis using old len ktr remsub by auto
      qed
    qed
    have comp_others: "\<forall>n \<in> keys ?tr - {node}. complete_at nfa states' ?tr n (set (nfa_alphabet nfa))"
    proof
      fix n assume n: "n \<in> keys ?tr - {node}"
      then have n': "n \<in> keys tr - {node}" using ktr by simp
      then have "n < length states" using base by (auto simp: base_ok_def)
      with others n' show "complete_at nfa states' ?tr n (set (nfa_alphabet nfa))"
        using old by (auto simp: complete_at_def tr_get_set_edge)
    qed
    have comp_mine: "complete_at nfa states' ?tr node (insert char D)"
      using mine node old by (auto simp: complete_at_def tr_get_set_edge)
    show ?thesis
      unfolding res gen_inner_def
      using base' edges' comp_others comp_mine node ktr old len by auto
  qed
qed

lemma fold_gen_char_inner:
  "gen_inner nfa state node D st \<Longrightarrow> set cs \<subseteq> set (nfa_alphabet nfa) \<Longrightarrow>
   gen_inner nfa state node (D \<union> set cs) (fold (gen_char nfa state node) cs st)"
proof (induction cs arbitrary: D st)
  case Nil
  then show ?case by simp
next
  case (Cons c cs)
  from gen_char_inner[OF Cons.prems(1), of c] Cons.prems(2)
  have "gen_inner nfa state node (insert c D) (gen_char nfa state node c st)" by simp
  from Cons.IH[OF this] Cons.prems(2) show ?case by simp
qed

lemma gen_step_inv:
  assumes inv: "gen_inv nfa st" and ne: "snd (snd st) \<noteq> []"
  shows "gen_inv nfa (gen_step nfa st)"
proof -
  obtain states tr remaining where st: "st = (states, tr, remaining)" by (cases st)
  from ne st obtain state rest where rem: "remaining = state # rest" by (cases remaining) auto
  from inv st have base: "base_ok nfa (states, tr, remaining)"
    and edges: "edges_ok nfa (states, tr, remaining)"
    and comp: "\<forall>n \<in> keys tr. complete_at nfa states tr n (set (nfa_alphabet nfa))"
    by (auto simp: gen_inv_def)
  obtain states' node where ln: "lookup_node states state = (states', node)"
    by (cases "lookup_node states state")
  from lookup_node_props[OF ln] obtain ys where
    dn: "node < length states'" "states' ! node = state" and
    app: "states' = states @ ys" and sset: "set states' = insert state (set states)" and
    dist: "distinct states \<longrightarrow> distinct states'" by blast
  have old: "\<And>i. i < length states \<Longrightarrow> states' ! i = states ! i"
    by (simp add: app nth_append)
  have len: "length states \<le> length states'" by (simp add: app)
  have d': "distinct states'" using base dist by (simp add: base_ok_def)
  let ?tr = "touch node tr"
  let ?st1 = "(states', ?tr, rest)"
  have step: "gen_step nfa st = fold (gen_char nfa state node) (nfa_alphabet nfa) ?st1"
    by (simp add: gen_step_def st rem ln)
  have base1: "base_ok nfa ?st1"
  proof -
    have "0 \<in> keys ?tr \<or> advance_empties nfa [0] \<in> set rest"
    proof (cases "0 \<in> keys tr \<or> advance_empties nfa [0] \<in> set rest")
      case True
      then show ?thesis by (auto simp: keys_touch)
    next
      case False
      with base rem have s: "state = advance_empties nfa [0]" by (auto simp: base_ok_def)
      from base have "states ! 0 = advance_empties nfa [0]" "0 < length states"
        by (auto simp: base_ok_def)
      then have "states' ! 0 = state" using old s by simp
      with dn d' len \<open>0 < length states\<close> have "node = 0"
        by (metis distinct_conv_nth less_le_trans)
      then show ?thesis by (simp add: keys_touch)
    qed
    moreover have l2: "2 \<le> length states" using base by (simp add: base_ok_def)
    moreover have "states' ! 0 = states ! 0" "states' ! 1 = states ! 1"
    proof -
      from l2 have "0 < length states" "1 < length states" by auto
      then show "states' ! 0 = states ! 0" "states' ! 1 = states ! 1"
        using old by blast+
    qed
    moreover have "keys ?tr \<subseteq> {..<length states'}"
      using base dn len by (auto simp: base_ok_def keys_touch)
    moreover have "set rest \<subseteq> set states'" using base rem sset by (auto simp: base_ok_def)
    ultimately show ?thesis
      using base d' len
      by (simp add: base_ok_def)
  qed
  have edges1: "edges_ok nfa ?st1"
    unfolding edges_ok_def
  proof (clarify)
    fix n c m assume "tr_get ?tr n c = Some m"
    then have g: "tr_get tr n c = Some m" by (simp add: tr_get_touch)
    from edges_okD[OF edges g] have e: "n < length states" "m < length states"
      "c \<in> set (nfa_alphabet nfa)" "states ! m \<noteq> []"
      "states ! m = advance nfa (states ! n) c"
      "m \<in> keys tr \<or> states ! m \<in> set remaining"
      by blast+
    have "m \<in> keys ?tr \<or> states' ! m \<in> set rest"
    proof (cases "m \<in> keys tr \<or> states ! m \<in> set rest")
      case True
      then show ?thesis using old e(2) by (auto simp: keys_touch)
    next
      case False
      with e(6) rem have "states ! m = state" by auto
      then have "states' ! m = states' ! node" using old e(2) dn by simp
      with d' dn e(2) len have "m = node"
        by (metis distinct_conv_nth less_le_trans)
      then show ?thesis by (simp add: keys_touch)
    qed
    then show "n < length states' \<and> m < length states' \<and> c \<in> set (nfa_alphabet nfa) \<and>
            states' ! m \<noteq> [] \<and> states' ! m = advance nfa (states' ! n) c \<and>
            (m \<in> keys ?tr \<or> states' ! m \<in> set rest)"
      using e old len by auto
  qed
  have others1: "\<forall>n \<in> keys ?tr - {node}. complete_at nfa states' ?tr n (set (nfa_alphabet nfa))"
  proof
    fix n assume "n \<in> keys ?tr - {node}"
    then have n: "n \<in> keys tr" by (auto simp: keys_touch)
    then have "n < length states" using base by (auto simp: base_ok_def)
    with comp n show "complete_at nfa states' ?tr n (set (nfa_alphabet nfa))"
      using old by (auto simp: complete_at_def tr_get_touch)
  qed
  have inner0: "gen_inner nfa state node {} ?st1"
    unfolding gen_inner_def using base1 edges1 others1 dn
    by (auto simp: keys_touch complete_at_def)
  from fold_gen_char_inner[OF inner0, of "nfa_alphabet nfa"]
  have "gen_inner nfa state node (set (nfa_alphabet nfa)) (gen_step nfa st)"
    by (simp add: step)
  then show ?thesis
    by (auto simp: gen_inner_def gen_inv_def split: prod.splits)
qed

subsection \<open>The result of the loop and the sink completion\<close>








lemma start_has_0: "0 \<in> set (advance_empties nfa [0])"
  by (simp add: advance_empties_closure)

lemma start_not_invalid: "advance_empties nfa [0] \<noteq> frozenset [1]"
proof
  assume "advance_empties nfa [0] = frozenset [1]"
  with start_has_0[of nfa] show False by (simp add: frozenset_def)
qed

lemma gen_init:
  "lookup_node [] (advance_empties nfa [0]) = ([advance_empties nfa [0]], 0)"
  "lookup_node [advance_empties nfa [0]] (frozenset [1]) =
     ([advance_empties nfa [0], frozenset [1]], 1)"
  using start_not_invalid[of nfa] by (auto simp: lookup_node_def)

lemma gen_inv_init:
  "gen_inv nfa ([advance_empties nfa [0], frozenset [1]], [], [advance_empties nfa [0]])"
  using start_not_invalid[of nfa]
  by (auto simp: gen_inv_def base_ok_def edges_ok_def tr_get_def)

lemma gen_loop_result:
  assumes "gen_loop nfa ([advance_empties nfa [0], frozenset [1]], [], [advance_empties nfa [0]])
             = Some (states, tr, remaining)"
  shows "gen_inv nfa (states, tr, remaining) \<and> remaining = []"
proof -
  let ?b = "\<lambda>(states, tr, remaining). remaining \<noteq> ([] :: nat list list)"
  have step: "\<And>s. gen_inv nfa s \<Longrightarrow> ?b s \<Longrightarrow> gen_inv nfa (gen_step nfa s)"
    by (rule gen_step_inv) auto
  from while_option_rule[where P = "gen_inv nfa", OF step assms[unfolded gen_loop_def] gen_inv_init]
  have "gen_inv nfa (states, tr, remaining)" .
  moreover from while_option_stop[OF assms[unfolded gen_loop_def]] have "remaining = []" by simp
  ultimately show ?thesis by simp
qed

lemma gen_dfa_Inr:
  assumes "gen_dfa nfa = Some (Inr dfa)"
  obtains states tr where
    "gen_loop nfa ([advance_empties nfa [0], frozenset [1]], [], [advance_empties nfa [0]])
       = Some (states, tr, [])"
    "gen_inv nfa (states, tr, [])" "1 \<notin> keys tr"
    "dfa_transitions dfa = complete_sink 0 1 tr"
    "coalesce_all (nfa_literalRules nfa) (node_names nfa states) = Inr (dfa_matchNodeNames dfa)"
    "dfa_literalRules dfa = nfa_literalRules nfa"
proof -
  let ?init = "([advance_empties nfa [0], frozenset [1]], [], [advance_empties nfa [0]])"
  have eq: "gen_dfa nfa =
      (case gen_loop nfa ?init of
         None \<Rightarrow> None
       | Some (states, tr, remaining) \<Rightarrow>
           Some (if 1 \<in> keys tr then Inl GenAssertionError
                 else DFA_init (complete_sink 0 1 tr) (node_names nfa states)
                        (nfa_literalRules nfa)))"
    unfolding gen_dfa_def Let_def gen_init prod.case ..
  from assms obtain states tr remaining where
    loop: "gen_loop nfa ?init = Some (states, tr, remaining)"
    unfolding eq by (auto split: option.splits)
  from gen_loop_result[OF loop] have inv: "gen_inv nfa (states, tr, remaining)" and r: "remaining = []"
    by auto
  from assms loop have k: "1 \<notin> keys tr" and
    d: "DFA_init (complete_sink 0 1 tr) (node_names nfa states) (nfa_literalRules nfa) = Inr dfa"
    unfolding eq by (auto split: if_splits)
  from d obtain named where
    "coalesce_all (nfa_literalRules nfa) (node_names nfa states) = Inr named"
    "dfa = \<lparr>dfa_transitions = complete_sink 0 1 tr, dfa_matchNodeNames = named,
            dfa_literalRules = nfa_literalRules nfa\<rparr>"
    by (auto simp: DFA_init_def split: sum.splits)
  with loop inv r k show ?thesis by (intro that[of states tr]) auto
qed





subsection \<open>Names of the nodes\<close>












subsection \<open>The fat DFA simulates the NFA\<close>






lemma gen_dfa_literalRules:
  assumes "gen_dfa nfa = Some (Inr dfa)"
  shows "dfa_literalRules dfa = nfa_literalRules nfa"
  using assms by (rule gen_dfa_Inr)



subsection \<open>Example automata\<close>





















section \<open>The claims on the NFA and on the subset construction\<close>

subsection \<open>Validation\<close>

lemma ex_validate_star:
  "validate ex_nfa_star = [''error: rule is trivially matched from start: r.'']"
  by code_simp

text \<open>
  Claim C9, as stated: \<^verbatim>\<open>validate\<close> returns one message of the form
  \<^verbatim>\<open>error: rule is trivially matched from start: <name>\<close> for each match node in the
  \<open>\<epsilon>\<close>-closure of \<open>{0}\<close>. The messages of the code end with a period after the name:
  for the rule \<^verbatim>\<open>r\<close> of \<^verbatim>\<open>ex_nfa_star\<close>, whose match node 2 is in the closure \<open>{0, 2, 3}\<close>,
  the message is not the one of the claim.
\<close>

theorem validate_counterexample:
  "validate ex_nfa_star = [''error: rule is trivially matched from start: r.''] \<and>
   nfa_matchNodeNames ex_nfa_star = [(1, ''invalid''), (2, ''r'')] \<and>
   advance_empties ex_nfa_star [0] = [0, 2, 3] \<and>
   validate ex_nfa_star \<noteq> [''error: rule is trivially matched from start: r'']"
proof -
  have "advance_empties ex_nfa_star [0] = [0, 2, 3]" by code_simp
  moreover have "nfa_matchNodeNames ex_nfa_star = [(1, ''invalid''), (2, ''r'')]"
    by (simp add: ex_nfa_star_def)
  ultimately show ?thesis unfolding ex_validate_star by simp
qed

text \<open>
  Claim C9, amended: \<^verbatim>\<open>validate\<close> returns, in the order of the sorted items of
  \<^verbatim>\<open>matchNodeNames\<close>, one message \<^verbatim>\<open>error: rule is trivially matched from start: <name>.\<close>
  (with a final period) for each match node that is in the \<open>\<epsilon>\<close>-closure of \<open>{0}\<close>, and it
  returns the empty list if and only if no named match node is in that closure.
\<close>

theorem validate_messages:
  "validate nfa =
     map (\<lambda>(node, name). ''error: rule is trivially matched from start: '' @ name @ ''.'')
       (filter (\<lambda>(node, name). (0, node) \<in> (eps_step nfa)\<^sup>*) (sort (nfa_matchNodeNames nfa))) \<and>
   (validate nfa = [] \<longleftrightarrow>
      (\<forall>(node, name) \<in> set (nfa_matchNodeNames nfa). (0, node) \<notin> (eps_step nfa)\<^sup>*))"
proof -
  have cl: "\<And>node. node \<in> set (advance_empties nfa [0]) \<longleftrightarrow> (0, node) \<in> (eps_step nfa)\<^sup>*"
    by (simp add: advance_empties_closure)
  have v: "validate nfa =
     map (\<lambda>(node, name). ''error: rule is trivially matched from start: '' @ name @ ''.'')
       (filter (\<lambda>(node, name). (0, node) \<in> (eps_step nfa)\<^sup>*) (sort (nfa_matchNodeNames nfa)))"
    by (simp add: validate_def cl)
  have "validate nfa = [] \<longleftrightarrow>
      (\<forall>(node, name) \<in> set (nfa_matchNodeNames nfa). (0, node) \<notin> (eps_step nfa)\<^sup>*)"
    unfolding v by (auto simp: filter_empty_conv)
  with v show ?thesis by simp
qed

theorem validate_messages_witness:
  "validate ex_nfa_star = [''error: rule is trivially matched from start: r.''] \<and>
   (0, 2) \<in> (eps_step ex_nfa_star)\<^sup>*"
proof -
  have "validate ex_nfa_star \<noteq> []" by (simp add: ex_validate_star)
  with validate_messages[of ex_nfa_star]
  obtain node name where "(node, name) \<in> set (nfa_matchNodeNames ex_nfa_star)"
    "(0, node) \<in> (eps_step ex_nfa_star)\<^sup>*" by auto
  moreover have "(0, 1) \<notin> (eps_step ex_nfa_star)\<^sup>*"
  proof -
    have "1 \<notin> set (advance_empties ex_nfa_star [0])" by code_simp
    then show ?thesis by (simp add: advance_empties_closure)
  qed
  ultimately have "(0, 2) \<in> (eps_step ex_nfa_star)\<^sup>*"
    by (auto simp: ex_nfa_star_def)
  with ex_validate_star show ?thesis by simp
qed

subsection \<open>Sink completion\<close>




subsection \<open>The fat DFA and the NFA\<close>




subsection \<open>Name coalescing\<close>




end
